theory Spec2Isabelle
  imports Main "HOL-Library.Word"
begin

section \<open>Data model (models.cairo)\<close>

text \<open>
  A \<open>ContractAddress\<close> is an opaque field element; only equality on it is used.
  Cairo's \<open>u8\<close>, \<open>u32\<close> and \<open>u64\<close> are fixed-width unsigned integers.
\<close>

type_synonym ContractAddress = nat
type_synonym u8 = "8 word"
type_synonym u32 = "32 word"
type_synonym u64 = "64 word"

record Player =
  address :: ContractAddress
  total_flips :: u32
  wins :: u32
  losses :: u32

record Game =
  player :: ContractAddress
  game_id :: u32
  prediction :: u8
  outcome :: u8
  won :: bool

text \<open>
  The \<open>Flipped\<close> event of actions.cairo has the same five fields as \<open>Game\<close>; its
  fields carry the prefix \<open>e_\<close> here, since a field name is a constant of the theory.
\<close>

record Flipped =
  e_player :: ContractAddress
  e_game_id :: u32
  e_prediction :: u8
  e_outcome :: u8
  e_won :: bool

section \<open>Execution context and world storage\<close>

text \<open>
  What the platform supplies to a call: \<open>get_caller_address()\<close> and
  \<open>get_block_timestamp()\<close> read these two fields.
\<close>

record ExecutionInfo =
  caller_address :: ContractAddress
  block_timestamp :: u64

definition get_caller_address :: "ExecutionInfo \<Rightarrow> ContractAddress" where
  "get_caller_address ctx = caller_address ctx"

definition get_block_timestamp :: "ExecutionInfo \<Rightarrow> u64" where
  "get_block_timestamp ctx = block_timestamp ctx"

text \<open>
  The panics a call can end in: the failed \<open>assert\<close> of \<open>flip\<close>, the \<open>unwrap\<close> of
  a \<open>None\<close>, and the overflow of Cairo's checked \<open>u32\<close> addition.
\<close>

datatype error = Invalid_prediction | Option_unwrap_failed | u32_add_Overflow

text \<open>
  The world storage of the Dojo framework, as far as the contract uses it: the records
  of the two models by key, and the events emitted so far. The contract is a writer of
  its namespace, so a write never fails. Every access of the storage is recorded in
  \<open>storage_log\<close>, in the order the contract performs it, so that "nothing was read
  or written" is a statement about the world a call ends in.
\<close>

datatype storage_op =
    Read_Player ContractAddress
  | Write_Player ContractAddress
  | Write_Game ContractAddress u32

record WorldStorage =
  players :: "ContractAddress \<rightharpoonup> Player"
  games :: "ContractAddress \<times> u32 \<rightharpoonup> Game"
  events :: "Flipped list"
  storage_log :: "storage_op list"

definition empty_world :: WorldStorage where
  "empty_world = \<lparr>players = Map.empty, games = Map.empty, events = [], storage_log = []\<rparr>"

text \<open>
  \<open>world.read_model(key)\<close> on the Player model never fails: a key that was never
  written yields the record with that key and zero in every other field. (The framework
  itself stores zeros for an absent record; every record that \<open>flip\<close> writes has a
  field that is not zero, so that a map with absent keys holds the same records.)
\<close>

definition get_player :: "WorldStorage \<Rightarrow> ContractAddress \<Rightarrow> Player" where
  "get_player w k =
     (case players w k of
        None \<Rightarrow> \<lparr>address = k, total_flips = 0, wins = 0, losses = 0\<rparr>
      | Some p \<Rightarrow> p)"

definition read_model_Player :: "ContractAddress \<Rightarrow> WorldStorage \<Rightarrow> Player \<times> WorldStorage" where
  "read_model_Player k w = (get_player w k, w\<lparr>storage_log := storage_log w @ [Read_Player k]\<rparr>)"

text \<open>\<open>world.write_model\<close> is an unconditional upsert at the key fields of the record.\<close>

definition write_model_Player :: "Player \<Rightarrow> WorldStorage \<Rightarrow> WorldStorage" where
  "write_model_Player p w =
     w\<lparr>players := (players w)(address p \<mapsto> p),
       storage_log := storage_log w @ [Write_Player (address p)]\<rparr>"

definition write_model_Game :: "Game \<Rightarrow> WorldStorage \<Rightarrow> WorldStorage" where
  "write_model_Game g w =
     w\<lparr>games := (games w)((player g, game_id g) \<mapsto> g),
       storage_log := storage_log w @ [Write_Game (player g) (game_id g)]\<rparr>"

definition emit_event :: "Flipped \<Rightarrow> WorldStorage \<Rightarrow> WorldStorage" where
  "emit_event e w = w\<lparr>events := events w @ [e]\<rparr>"

section \<open>Checked integer operations of Cairo\<close>

text \<open>\<open>a + b\<close> on \<open>u32\<close> panics with \<open>'u32_add Overflow'\<close> instead of wrapping.\<close>

definition u32_add :: "u32 \<Rightarrow> u32 \<Rightarrow> error + u32" where
  "u32_add a b = (if unat a + unat b < 2 ^ 32 then Inr (a + b) else Inl u32_add_Overflow)"

text \<open>\<open>try_into\<close> from \<open>u64\<close> to \<open>u8\<close>: \<open>None\<close> when the value does not fit.\<close>

definition u64_try_into_u8 :: "u64 \<Rightarrow> u8 option" where
  "u64_try_into_u8 x = (if unat x \<le> 255 then Some (ucast x) else None)"

section \<open>The flip system (actions.cairo)\<close>

text \<open>
  \<open>flip\<close> returns how the call ended together with the world at that moment: after a
  panic this is the world as the call left it when it stopped. The statements of the
  source follow one another as nested \<open>let\<close> and \<open>case\<close>; \<open>player.wins += 1\<close> and
  \<open>player.losses += 1\<close> are checked additions like \<open>player.total_flips + 1\<close>.
  (The argument \<open>prediction\<close> is bound by a \<open>\<lambda>\<close>, its name being that of a field.)
\<close>

definition flip :: "ExecutionInfo \<Rightarrow> u8 \<Rightarrow> WorldStorage \<Rightarrow> (error + unit) \<times> WorldStorage" where
  "flip ctx = (\<lambda>prediction world.
     (if \<not> (prediction = 0 \<or> prediction = 1) then (Inl Invalid_prediction, world)
      else
        let caller = get_caller_address ctx;
            (player, world1) = read_model_Player caller world;
            timestamp = get_block_timestamp ctx
        in (case u64_try_into_u8 (timestamp mod 2) of
              None \<Rightarrow> (Inl Option_unwrap_failed, world1)
            | Some unwrapped \<Rightarrow>
               (let outcome = unwrapped;
                    won = (prediction = outcome)
                in (case u32_add (total_flips player) 1 of
                      Inl e \<Rightarrow> (Inl e, world1)
                    | Inr new_game_id \<Rightarrow>
                       (let player1 = player\<lparr>total_flips := new_game_id\<rparr>
                        in (case (if won
                                  then map_sum id (\<lambda>v. player1\<lparr>wins := v\<rparr>) (u32_add (wins player1) 1)
                                  else map_sum id (\<lambda>v. player1\<lparr>losses := v\<rparr>) (u32_add (losses player1) 1)) of
                              Inl e \<Rightarrow> (Inl e, world1)
                            | Inr player2 \<Rightarrow>
                               (let player3 = player2\<lparr>address := caller\<rparr>;
                                    game = \<lparr>player = caller, game_id = new_game_id,
                                            prediction = prediction, outcome = outcome, won = won\<rparr>;
                                    world2 = write_model_Player player3 world1;
                                    world3 = write_model_Game game world2;
                                    world4 = emit_event
                                      \<lparr>e_player = caller, e_game_id = new_game_id,
                                       e_prediction = prediction, e_outcome = outcome,
                                       e_won = won\<rparr> world3
                                in (Inr (), world4)))))))))"

section \<open>Transactions\<close>

text \<open>
  A call is one transaction: a panic reverts it, so the committed world is the one
  before the call; otherwise it is the world \<open>flip\<close> ends in.
\<close>

definition execute :: "ExecutionInfo \<Rightarrow> u8 \<Rightarrow> WorldStorage \<Rightarrow> WorldStorage" where
  "execute ctx pr w =
     (case flip ctx pr w of (Inl e, _) \<Rightarrow> w | (Inr _, w') \<Rightarrow> w')"

definition succeeds :: "ExecutionInfo \<Rightarrow> u8 \<Rightarrow> WorldStorage \<Rightarrow> bool" where
  "succeeds ctx pr w = (case fst (flip ctx pr w) of Inl e \<Rightarrow> False | Inr _ \<Rightarrow> True)"

text \<open>A history is a list of calls, executed one after the other.\<close>

fun run :: "(ExecutionInfo \<times> u8) list \<Rightarrow> WorldStorage \<Rightarrow> WorldStorage" where
  "run [] w = w"
| "run ((ctx, pr) # cs) w = run cs (execute ctx pr w)"

text \<open>The number of calls of a history that identity \<open>p\<close> made and that succeeded.\<close>

fun successes :: "ContractAddress \<Rightarrow> (ExecutionInfo \<times> u8) list \<Rightarrow> WorldStorage \<Rightarrow> nat" where
  "successes p [] w = 0"
| "successes p ((ctx, pr) # cs) w =
     (if get_caller_address ctx = p \<and> succeeds ctx pr w then 1 else 0)
       + successes p cs (execute ctx pr w)"


section \<open>Sample calls\<close>

text \<open>
  Concrete inputs on which the theorems below are instantiated: a call by identity \<open>a\<close>
  in a block with timestamp \<open>t\<close>, and a short history in which identity 7 flips and
  wins, identity 9 flips and loses, and identity 7 is rejected once.
\<close>

abbreviation call_at :: "ContractAddress \<Rightarrow> u64 \<Rightarrow> ExecutionInfo" where
  "call_at a t \<equiv> \<lparr>caller_address = a, block_timestamp = t\<rparr>"

abbreviation sample_history :: "(ExecutionInfo \<times> u8) list" where
  "sample_history \<equiv> [(call_at 7 10, 0), (call_at 9 11, 0), (call_at 7 12, 2)]"

abbreviation sample_world :: WorldStorage where
  "sample_world \<equiv> run sample_history empty_world"

section \<open>The invariant of reachable worlds\<close>

text \<open>
  What every world reached from \<open>empty_world\<close> satisfies: each Player record carries
  its own key and its counters add up, the Game keys of an identity are exactly
  \<open>1 .. total_flips\<close>, and each Game record carries its own key, a binary prediction
  and outcome, and the \<open>won\<close> flag they determine.
\<close>

definition world_inv :: "WorldStorage \<Rightarrow> bool" where
  "world_inv w \<longleftrightarrow>
     (\<forall>p. address (get_player w p) = p \<and>
          unat (wins (get_player w p)) + unat (losses (get_player w p))
            = unat (total_flips (get_player w p))) \<and>
     (\<forall>p i. (p, i) \<in> dom (games w) \<longleftrightarrow>
          1 \<le> unat i \<and> unat i \<le> unat (total_flips (get_player w p))) \<and>
     (\<forall>k g. games w k = Some g \<longrightarrow>
          (player g, game_id g) = k \<and> won g = (prediction g = outcome g) \<and>
          (prediction g = 0 \<or> prediction g = 1) \<and> (outcome g = 0 \<or> outcome g = 1))"

section \<open>Arithmetic of the checked operations\<close>

lemma u64_try_into_u8_mod2: "u64_try_into_u8 (t mod 2) = Some (ucast (t mod 2))"
  by (simp add: u64_try_into_u8_def unat_mod)

lemma mod2_cases: "(t::u64) mod 2 = 0 \<or> t mod 2 = 1"
proof -
  have "unat (t mod 2) = 0 \<or> unat (t mod 2) = 1" by (simp add: unat_mod) arith
  then show ?thesis
    by (metis unat_1 word_unat_eq_iff unat_0)
qed

lemma coin_cases: "(ucast ((t::u64) mod 2) :: u8) = 0 \<or> (ucast (t mod 2) :: u8) = 1"
proof -
  from mod2_cases[of t] show ?thesis
  proof
    assume "t mod 2 = 0"
    then have "(ucast (t mod 2) :: u8) = ucast (0::u64)" by (simp only:)
    then show ?thesis by simp
  next
    assume "t mod 2 = 1"
    then have "(ucast (t mod 2) :: u8) = ucast (1::u64)" by (simp only:)
    then show ?thesis by simp
  qed
qed

lemma unat_coin: "unat (ucast ((t::u64) mod 2) :: u8) = unat t mod 2"
proof -
  from mod2_cases[of t] have "unat (ucast (t mod 2) :: u8) = unat (t mod 2)"
  proof
    assume h: "t mod 2 = 0"
    have "unat (ucast (0::u64) :: u8) = unat (0::u64)" by simp
    then show ?thesis by (simp only: h)
  next
    assume h: "t mod 2 = 1"
    have "unat (ucast (1::u64) :: u8) = unat (1::u64)" by simp
    then show ?thesis by (simp only: h)
  qed
  then show ?thesis by (simp add: unat_mod)
qed

lemma u32_add_Inr: "u32_add a 1 = Inr c \<longleftrightarrow> unat a + 1 < 2 ^ 32 \<and> c = a + 1"
  by (auto simp: u32_add_def)

lemma u32_add_Inl: "u32_add a 1 = Inl e \<longleftrightarrow> \<not> unat a + 1 < 2 ^ 32 \<and> e = u32_add_Overflow"
  by (auto simp: u32_add_def)

lemma unat_succ_u32: "unat (a::u32) + 1 < 2 ^ 32 \<Longrightarrow> unat (a + 1) = unat a + 1"
  using unat_add_lem[of a 1] by simp

section \<open>What a call of flip does\<close>

lemmas flip_unfold = flip_def get_caller_address_def get_block_timestamp_def
  read_model_Player_def write_model_Player_def write_model_Game_def emit_event_def
  u64_try_into_u8_mod2 Let_def

text \<open>The equations that evaluate a call on a concrete world.\<close>

lemmas eval_defs = flip_unfold get_player_def empty_world_def u32_add_def
  execute_def succeeds_def

lemma flip_Inr_iff:
  assumes "c = caller_address ctx" and "P = get_player w c"
    and "oc = ucast (block_timestamp ctx mod 2)" and "n = total_flips P + 1"
  shows "flip ctx pr w = (Inr u, w') \<longleftrightarrow>
    (pr = 0 \<or> pr = 1) \<and> unat (total_flips P) + 1 < 2 ^ 32 \<and>
    (if pr = oc then unat (wins P) + 1 < 2 ^ 32 else unat (losses P) + 1 < 2 ^ 32) \<and>
    w' = \<lparr>players = (players w)(c \<mapsto> \<lparr>address = c, total_flips = n,
                 wins = (if pr = oc then wins P + 1 else wins P),
                 losses = (if pr = oc then losses P else losses P + 1)\<rparr>),
          games = (games w)((c, n) \<mapsto>
                 \<lparr>player = c, game_id = n, prediction = pr, outcome = oc, won = (pr = oc)\<rparr>),
          events = events w @
                 [\<lparr>e_player = c, e_game_id = n, e_prediction = pr, e_outcome = oc, e_won = (pr = oc)\<rparr>],
          storage_log = storage_log w @ [Read_Player c, Write_Player c, Write_Game c n]\<rparr>"
  unfolding assms
  by (cases "get_player w (caller_address ctx)")
    (auto simp: flip_unfold u32_add_def)

lemma flip_Inl_iff:
  assumes "c = caller_address ctx" and "P = get_player w c"
    and "oc = ucast (block_timestamp ctx mod 2)"
  shows "flip ctx pr w = (Inl e, w') \<longleftrightarrow>
    (\<not> (pr = 0 \<or> pr = 1) \<and> e = Invalid_prediction \<and> w' = w) \<or>
    ((pr = 0 \<or> pr = 1) \<and> e = u32_add_Overflow \<and>
     w' = w\<lparr>storage_log := storage_log w @ [Read_Player c]\<rparr> \<and>
     \<not> (unat (total_flips P) + 1 < 2 ^ 32 \<and>
        (if pr = oc then unat (wins P) + 1 < 2 ^ 32 else unat (losses P) + 1 < 2 ^ 32)))"
  unfolding assms
  by (cases "get_player w (caller_address ctx)")
    (auto simp: flip_unfold u32_add_def)

section \<open>Reachable worlds satisfy the invariant\<close>

lemma get_player_empty: "get_player empty_world p = \<lparr>address = p, total_flips = 0, wins = 0, losses = 0\<rparr>"
  by (simp add: get_player_def empty_world_def)

lemma world_inv_empty: "world_inv empty_world"
  by (simp add: world_inv_def get_player_empty) (simp add: empty_world_def)

lemma flip_Inr_get_player:
  assumes "flip ctx pr w = (Inr u, w')"
  shows "get_player w' q =
    (if q = caller_address ctx
     then \<lparr>address = q, total_flips = total_flips (get_player w q) + 1,
           wins = (if pr = ucast (block_timestamp ctx mod 2)
                   then wins (get_player w q) + 1 else wins (get_player w q)),
           losses = (if pr = ucast (block_timestamp ctx mod 2)
                     then losses (get_player w q) else losses (get_player w q) + 1)\<rparr>
     else get_player w q)"
  using assms unfolding flip_Inr_iff[OF refl refl refl refl]
  by (auto simp: get_player_def)

lemma flip_Inr_games:
  assumes "flip ctx pr w = (Inr u, w')"
  shows "games w' = (games w)((caller_address ctx, total_flips (get_player w (caller_address ctx)) + 1) \<mapsto>
     \<lparr>player = caller_address ctx, game_id = total_flips (get_player w (caller_address ctx)) + 1,
      prediction = pr, outcome = ucast (block_timestamp ctx mod 2),
      won = (pr = ucast (block_timestamp ctx mod 2))\<rparr>)"
  using assms unfolding flip_Inr_iff[OF refl refl refl refl] by auto

lemma flip_Inr_bounds:
  assumes "flip ctx pr w = (Inr u, w')"
  shows "(pr = 0 \<or> pr = 1) \<and> unat (total_flips (get_player w (caller_address ctx))) + 1 < 2 ^ 32 \<and>
    (if pr = ucast (block_timestamp ctx mod 2)
     then unat (wins (get_player w (caller_address ctx))) + 1 < 2 ^ 32
     else unat (losses (get_player w (caller_address ctx))) + 1 < 2 ^ 32)"
  using assms unfolding flip_Inr_iff[OF refl refl refl refl] by blast

lemma world_inv_flip:
  assumes inv: "world_inv w" and ok: "flip ctx pr w = (Inr u, w')"
  shows "world_inv w'"
proof -
  let ?c = "caller_address ctx"
  let ?P = "get_player w ?c"
  note gp = flip_Inr_get_player[OF ok]
  note gm = flip_Inr_games[OF ok]
  note bd = flip_Inr_bounds[OF ok]
  have tf: "unat (total_flips ?P + 1) = unat (total_flips ?P) + 1"
    using bd by (simp add: unat_succ_u32)
  have a: "\<forall>p. address (get_player w' p) = p \<and>
          unat (wins (get_player w' p)) + unat (losses (get_player w' p))
            = unat (total_flips (get_player w' p))"
  proof
    fix p
    from inv have ip: "address (get_player w p) = p"
      "unat (wins (get_player w p)) + unat (losses (get_player w p)) = unat (total_flips (get_player w p))"
      by (simp_all add: world_inv_def)
    show "address (get_player w' p) = p \<and>
          unat (wins (get_player w' p)) + unat (losses (get_player w' p))
            = unat (total_flips (get_player w' p))"
    proof (cases "p = ?c")
      case True
      with bd tf ip show ?thesis
        by (auto simp: gp unat_succ_u32 split: if_splits)
    next
      case False
      with ip show ?thesis by (simp add: gp)
    qed
  qed
  have b: "\<forall>p i. (p, i) \<in> dom (games w') \<longleftrightarrow>
          1 \<le> unat i \<and> unat i \<le> unat (total_flips (get_player w' p))"
  proof (intro allI)
    fix p i
    from inv have ip: "(p, i) \<in> dom (games w) \<longleftrightarrow>
          1 \<le> unat i \<and> unat i \<le> unat (total_flips (get_player w p))"
      by (simp add: world_inv_def)
    show "(p, i) \<in> dom (games w') \<longleftrightarrow>
          1 \<le> unat i \<and> unat i \<le> unat (total_flips (get_player w' p))"
    proof (cases "p = ?c")
      case True
      have "i = total_flips ?P + 1 \<longleftrightarrow> unat i = unat (total_flips ?P) + 1"
        using tf by (simp add: word_unat_eq_iff)
      with True ip tf show ?thesis
        by (auto simp: gp gm)
    next
      case False
      with ip show ?thesis by (simp add: gp gm)
    qed
  qed
  have c: "\<forall>k g. games w' k = Some g \<longrightarrow>
          (player g, game_id g) = k \<and> won g = (prediction g = outcome g) \<and>
          (prediction g = 0 \<or> prediction g = 1) \<and> (outcome g = 0 \<or> outcome g = 1)"
  proof (intro allI impI)
    fix k g assume h: "games w' k = Some g"
    show "(player g, game_id g) = k \<and> won g = (prediction g = outcome g) \<and>
          (prediction g = 0 \<or> prediction g = 1) \<and> (outcome g = 0 \<or> outcome g = 1)"
    proof (cases "k = (?c, total_flips ?P + 1)")
      case True
      with h have "g = \<lparr>player = ?c, game_id = total_flips ?P + 1,
          prediction = pr, outcome = ucast (block_timestamp ctx mod 2),
          won = (pr = ucast (block_timestamp ctx mod 2))\<rparr>"
        by (simp add: gm)
      with True bd coin_cases[of "block_timestamp ctx"] show ?thesis by simp
    next
      case False
      with h have "games w k = Some g" by (simp add: gm)
      with inv show ?thesis unfolding world_inv_def by blast
    qed
  qed
  from a b c show ?thesis unfolding world_inv_def by blast
qed

lemma execute_cases:
  "execute ctx pr w = w \<and> \<not> succeeds ctx pr w \<or>
   flip ctx pr w = (Inr (), execute ctx pr w) \<and> succeeds ctx pr w"
  by (cases "flip ctx pr w"; cases "fst (flip ctx pr w)") (auto simp: execute_def succeeds_def)

lemma world_inv_execute: "world_inv w \<Longrightarrow> world_inv (execute ctx pr w)"
  using execute_cases[of ctx pr w] world_inv_flip by metis

lemma world_inv_run: "world_inv w \<Longrightarrow> world_inv (run cs w)"
  by (induction cs arbitrary: w) (auto simp: world_inv_execute)

lemma world_inv_reachable: "world_inv (run cs empty_world)"
  by (simp add: world_inv_run world_inv_empty)

section \<open>The conversion of the coin\<close>

text \<open>
  Claim C10. The conversion from \<open>u64\<close> to \<open>u8\<close> that \<open>flip\<close> applies to
  \<open>timestamp % 2\<close> never fails: for every timestamp the remainder is below 2, so
  \<open>try_into\<close> returns \<open>Some\<close> of it, and no call of \<open>flip\<close> ends in the panic of
  \<open>unwrap\<close>.
\<close>

theorem timestamp_conversion_never_fails:
  "unat (timestamp mod 2) < 2 \<and>
   u64_try_into_u8 (timestamp mod 2) = Some (ucast (timestamp mod 2)) \<and>
   unat (the (u64_try_into_u8 (timestamp mod 2))) = unat timestamp mod 2 \<and>
   fst (flip ctx pr w) \<noteq> Inl Option_unwrap_failed"
proof -
  have "unat (timestamp mod 2) < 2" by (simp add: unat_mod)
  moreover have "fst (flip ctx pr w) \<noteq> Inl Option_unwrap_failed"
  proof (cases "flip ctx pr w")
    case (Pair r w')
    show ?thesis
    proof (cases r)
      case (Inl e)
      with Pair have "flip ctx pr w = (Inl e, w')" by simp
      then have "e \<noteq> Option_unwrap_failed"
        unfolding flip_Inl_iff[OF refl refl refl] by auto
      with Pair Inl show ?thesis by simp
    next
      case (Inr u)
      with Pair show ?thesis by simp
    qed
  qed
  ultimately show ?thesis
    by (simp add: u64_try_into_u8_mod2 unat_coin)
qed

section \<open>Counting flips and game identifiers\<close>

lemma unat_Suc_u32: "unat (a::u32) < 4294967295 \<Longrightarrow> unat (a + 1) = Suc (unat a)"
  using unat_succ_u32[of a] by simp

lemma total_flips_execute:
  "unat (total_flips (get_player (execute ctx pr w) p)) =
     unat (total_flips (get_player w p)) +
     (if get_caller_address ctx = p \<and> succeeds ctx pr w then 1 else 0)"
proof (cases "succeeds ctx pr w")
  case False
  with execute_cases[of ctx pr w] show ?thesis by auto
next
  case True
  with execute_cases[of ctx pr w] have ok: "flip ctx pr w = (Inr (), execute ctx pr w)" by auto
  show ?thesis
  proof (cases "caller_address ctx = p")
    case False
    with True show ?thesis
      by (simp add: flip_Inr_get_player[OF ok] get_caller_address_def)
  next
    case same: True
    from flip_Inr_bounds[OF ok] same
    have "unat (total_flips (get_player w p) + 1) = unat (total_flips (get_player w p)) + 1"
      by (simp add: unat_succ_u32)
    with True same show ?thesis
      by (simp add: flip_Inr_get_player[OF ok] get_caller_address_def)
  qed
qed

lemma total_flips_run:
  "unat (total_flips (get_player (run cs w) p)) =
     unat (total_flips (get_player w p)) + successes p cs w"
  by (induction cs arbitrary: w) (auto simp: total_flips_execute)

lemma game_ids_dense:
  assumes "world_inv w"
  shows "unat ` {i. (p, i) \<in> dom (games w)} = {1 .. unat (total_flips (get_player w p))}"
proof (intro set_eqI iffI)
  fix k assume "k \<in> unat ` {i. (p, i) \<in> dom (games w)}"
  with assms show "k \<in> {1 .. unat (total_flips (get_player w p))}"
    unfolding world_inv_def by auto
next
  fix k assume k: "k \<in> {1 .. unat (total_flips (get_player w p))}"
  have "unat (total_flips (get_player w p)) < 2 ^ 32"
    using unsigned_less[of "total_flips (get_player w p)"] by simp
  with k have "unat (word_of_nat k :: u32) = k"
    by (simp add: unat_of_nat)
  with k assms have "(p, word_of_nat k) \<in> dom (games w)"
    unfolding world_inv_def by simp
  with \<open>unat (word_of_nat k :: u32) = k\<close>
  show "k \<in> unat ` {i. (p, i) \<in> dom (games w)}"
    by (metis (mono_tags, lifting) image_eqI mem_Collect_eq)
qed

lemma game_ids_card:
  assumes "world_inv w"
  shows "card {i. (p, i) \<in> dom (games w)} = unat (total_flips (get_player w p))"
proof -
  have "inj_on (unat :: u32 \<Rightarrow> nat) {i. (p, i) \<in> dom (games w)}"
    by (simp add: inj_on_def word_unat_eq_iff)
  then have "card (unat ` {i. (p, i) \<in> dom (games w)}) = card {i. (p, i) \<in> dom (games w)}"
    by (rule card_image)
  then show ?thesis by (simp add: game_ids_dense[OF assms])
qed

lemma next_game_id_fresh:
  assumes "world_inv w" and "unat (total_flips (get_player w p)) + 1 < 2 ^ 32"
  shows "(p, total_flips (get_player w p) + 1) \<notin> dom (games w)"
  using assms unfolding world_inv_def by (simp add: unat_succ_u32)

section \<open>Dense game identifiers\<close>

text \<open>
  Claim C1. Take any history of calls run from the empty world, any identity \<open>p\<close>, and
  let \<open>n\<close> be the number of successful calls of \<open>flip\<close> by \<open>p\<close> in it. Then the Player
  record of \<open>p\<close> has \<open>total_flips = n\<close>, and the Game records of \<open>p\<close> are keyed by
  exactly the identifiers \<open>1 .. n\<close>: no gap, and \<open>n\<close> of them, each record carrying
  its own key. Moreover two successful
  calls by \<open>p\<close>, one right after the other, write at two fresh, distinct, successive
  keys, and the second leaves the record of the first as it is.
\<close>

theorem flips_counted_games_dense:
  "unat (total_flips (get_player (run cs empty_world) p)) = successes p cs empty_world \<and>
   unat ` {i. (p, i) \<in> dom (games (run cs empty_world))} = {1 .. successes p cs empty_world} \<and>
   card {i. (p, i) \<in> dom (games (run cs empty_world))} = successes p cs empty_world \<and>
   (games (run cs empty_world) (p, i) = Some g \<longrightarrow> player g = p \<and> game_id g = i) \<and>
   (flip c1 pr1 (run cs empty_world) = (Inr (), w1) \<and> flip c2 pr2 w1 = (Inr (), w2) \<and>
    caller_address c1 = p \<and> caller_address c2 = p \<longrightarrow>
      (p, total_flips (get_player (run cs empty_world) p) + 1) \<notin> dom (games (run cs empty_world)) \<and>
      (p, total_flips (get_player (run cs empty_world) p) + 2) \<notin> dom (games w1) \<and>
      map_option game_id (games w1 (p, total_flips (get_player (run cs empty_world) p) + 1))
        = Some (total_flips (get_player (run cs empty_world) p) + 1) \<and>
      map_option game_id (games w2 (p, total_flips (get_player (run cs empty_world) p) + 2))
        = Some (total_flips (get_player (run cs empty_world) p) + 2) \<and>
      games w2 (p, total_flips (get_player (run cs empty_world) p) + 1)
        = games w1 (p, total_flips (get_player (run cs empty_world) p) + 1) \<and>
      total_flips (get_player (run cs empty_world) p) + 1
        \<noteq> total_flips (get_player (run cs empty_world) p) + 2 \<and>
      dom (games w2) = dom (games (run cs empty_world)) \<union>
        {(p, total_flips (get_player (run cs empty_world) p) + 1),
         (p, total_flips (get_player (run cs empty_world) p) + 2)})"
proof -
  let ?w = "run cs empty_world"
  let ?n = "total_flips (get_player ?w p)"
  have inv: "world_inv ?w" by (rule world_inv_reachable)
  have count: "unat ?n = successes p cs empty_world"
    using total_flips_run[of cs empty_world p] by (simp add: get_player_empty)
  have dense: "unat ` {i. (p, i) \<in> dom (games ?w)} = {1 .. successes p cs empty_world}"
    using game_ids_dense[OF inv, of p] by (simp add: count)
  have size: "card {i. (p, i) \<in> dom (games ?w)} = successes p cs empty_world"
    using game_ids_card[OF inv, of p] by (simp add: count)
  have two: "(p, ?n + 1) \<notin> dom (games ?w) \<and> (p, ?n + 2) \<notin> dom (games w1) \<and>
      map_option game_id (games w1 (p, ?n + 1)) = Some (?n + 1) \<and>
      map_option game_id (games w2 (p, ?n + 2)) = Some (?n + 2) \<and>
      games w2 (p, ?n + 1) = games w1 (p, ?n + 1) \<and> ?n + 1 \<noteq> ?n + 2 \<and>
      dom (games w2) = dom (games ?w) \<union> {(p, ?n + 1), (p, ?n + 2)}"
    if f1: "flip c1 pr1 ?w = (Inr (), w1)" and f2: "flip c2 pr2 w1 = (Inr (), w2)"
      and c1: "caller_address c1 = p" and c2: "caller_address c2 = p"
  proof -
    have inv1: "world_inv w1" by (rule world_inv_flip[OF inv f1])
    have n1: "total_flips (get_player w1 p) = ?n + 1"
      by (simp add: flip_Inr_get_player[OF f1] c1)
    have b1: "unat ?n + 1 < 2 ^ 32"
      using flip_Inr_bounds[OF f1] unfolding c1 by blast
    have b2: "unat (total_flips (get_player w1 p)) + 1 < 2 ^ 32"
      using flip_Inr_bounds[OF f2] unfolding c2 by blast
    have fresh: "(p, ?n + 1) \<notin> dom (games ?w)"
      by (rule next_game_id_fresh[OF inv b1])
    have "(p, total_flips (get_player w1 p) + 1) \<notin> dom (games w1)"
      by (rule next_game_id_fresh[OF inv1 b2])
    then have fresh1: "(p, ?n + 2) \<notin> dom (games w1)"
      by (simp add: n1 add.assoc)
    have ne: "?n + 1 \<noteq> ?n + 2" by simp
    have g1: "games w1 = (games ?w)((p, ?n + 1) \<mapsto>
       \<lparr>player = p, game_id = ?n + 1, prediction = pr1,
        outcome = ucast (block_timestamp c1 mod 2),
        won = (pr1 = ucast (block_timestamp c1 mod 2))\<rparr>)"
      using flip_Inr_games[OF f1] by (simp add: c1)
    have g2: "games w2 = (games w1)((p, ?n + 2) \<mapsto>
       \<lparr>player = p, game_id = ?n + 2, prediction = pr2,
        outcome = ucast (block_timestamp c2 mod 2),
        won = (pr2 = ucast (block_timestamp c2 mod 2))\<rparr>)"
      using flip_Inr_games[OF f2] by (simp add: c2 n1 add.assoc)
    have d: "dom (games w2) = dom (games ?w) \<union> {(p, ?n + 1), (p, ?n + 2)}"
      by (simp add: g2 g1) blast
    from fresh fresh1 ne d show ?thesis
      by (simp add: g2) (simp add: g1)
  qed
  have keyed: "player g = p \<and> game_id g = i" if "games ?w (p, i) = Some g"
    using inv that unfolding world_inv_def by fastforce
  from count dense size keyed two show ?thesis by blast
qed


theorem flips_counted_games_dense_witness:
  "successes 7 sample_history empty_world = 1 \<and>
   unat (total_flips (get_player sample_world 7)) = 1 \<and>
   card {i. (7, i) \<in> dom (games sample_world)} = 1 \<and>
   games sample_world (7, 1)
     = Some \<lparr>player = 7, game_id = 1, prediction = 0, outcome = 0, won = True\<rparr> \<and>
   fst (flip (call_at 7 13) 1 sample_world) = Inr () \<and>
   fst (flip (call_at 7 14) 1 (snd (flip (call_at 7 13) 1 sample_world))) = Inr () \<and>
   (7, 2) \<notin> dom (games sample_world) \<and>
   map_option game_id
     (games (snd (flip (call_at 7 14) 1 (snd (flip (call_at 7 13) 1 sample_world)))) (7, 2))
     = Some 2 \<and>
   map_option game_id
     (games (snd (flip (call_at 7 14) 1 (snd (flip (call_at 7 13) 1 sample_world)))) (7, 3))
     = Some 3"
  using flips_counted_games_dense
    [of sample_history 7 1 "\<lparr>player = 7, game_id = 1, prediction = 0, outcome = 0, won = True\<rparr>"
        "call_at 7 13" 1 "snd (flip (call_at 7 13) 1 sample_world)"
        "call_at 7 14" 1
        "snd (flip (call_at 7 14) 1 (snd (flip (call_at 7 13) 1 sample_world)))"]
  by (simp add: eval_defs)

section \<open>The counters of a player\<close>

text \<open>
  Claim C2. In every world reached from the empty one, every Player record, stored or
  read by default, satisfies \<open>wins + losses = total_flips\<close> (as numbers, without
  wrap-around). It holds for the zero-valued default record, and a successful call of
  \<open>flip\<close> preserves it: \<open>total_flips\<close> of the caller grows by one, and so does
  \<open>wins\<close> when the prediction equals the outcome and \<open>losses\<close> otherwise, the
  other counter staying as it was.
\<close>

theorem wins_plus_losses_is_total_flips:
  "unat (wins (get_player (run cs empty_world) p)) + unat (losses (get_player (run cs empty_world) p))
     = unat (total_flips (get_player (run cs empty_world) p)) \<and>
   (players (run cs empty_world) p = Some P \<longrightarrow>
      unat (wins P) + unat (losses P) = unat (total_flips P)) \<and>
   unat (wins (get_player empty_world p)) + unat (losses (get_player empty_world p))
     = unat (total_flips (get_player empty_world p)) \<and>
   total_flips (get_player empty_world p) = 0 \<and>
   (flip ctx pr w = (Inr (), w') \<longrightarrow>
      players w' (caller_address ctx) = Some (get_player w' (caller_address ctx)) \<and>
      unat (total_flips (get_player w' (caller_address ctx)))
        = unat (total_flips (get_player w (caller_address ctx))) + 1 \<and>
      e_won (last (events w')) = (pr = ucast (block_timestamp ctx mod 2)) \<and>
      (if pr = ucast (block_timestamp ctx mod 2)
       then unat (wins (get_player w' (caller_address ctx)))
              = unat (wins (get_player w (caller_address ctx))) + 1 \<and>
            losses (get_player w' (caller_address ctx)) = losses (get_player w (caller_address ctx))
       else unat (losses (get_player w' (caller_address ctx)))
              = unat (losses (get_player w (caller_address ctx))) + 1 \<and>
            wins (get_player w' (caller_address ctx)) = wins (get_player w (caller_address ctx))) \<and>
      (unat (wins (get_player w (caller_address ctx))) + unat (losses (get_player w (caller_address ctx)))
         = unat (total_flips (get_player w (caller_address ctx))) \<longrightarrow>
       unat (wins (get_player w' (caller_address ctx))) + unat (losses (get_player w' (caller_address ctx)))
         = unat (total_flips (get_player w' (caller_address ctx)))))"
proof -
  have inv: "world_inv (run cs empty_world)" by (rule world_inv_reachable)
  then have reach: "unat (wins (get_player (run cs empty_world) p))
      + unat (losses (get_player (run cs empty_world) p))
      = unat (total_flips (get_player (run cs empty_world) p))"
    unfolding world_inv_def by blast
  have stored: "unat (wins P) + unat (losses P) = unat (total_flips P)"
    if "players (run cs empty_world) p = Some P"
    using reach that by (simp add: get_player_def)
  have step: "players w' (caller_address ctx) = Some (get_player w' (caller_address ctx)) \<and>
      unat (total_flips (get_player w' (caller_address ctx)))
        = unat (total_flips (get_player w (caller_address ctx))) + 1 \<and>
      e_won (last (events w')) = (pr = ucast (block_timestamp ctx mod 2)) \<and>
      (if pr = ucast (block_timestamp ctx mod 2)
       then unat (wins (get_player w' (caller_address ctx)))
              = unat (wins (get_player w (caller_address ctx))) + 1 \<and>
            losses (get_player w' (caller_address ctx)) = losses (get_player w (caller_address ctx))
       else unat (losses (get_player w' (caller_address ctx)))
              = unat (losses (get_player w (caller_address ctx))) + 1 \<and>
            wins (get_player w' (caller_address ctx)) = wins (get_player w (caller_address ctx))) \<and>
      (unat (wins (get_player w (caller_address ctx))) + unat (losses (get_player w (caller_address ctx)))
         = unat (total_flips (get_player w (caller_address ctx))) \<longrightarrow>
       unat (wins (get_player w' (caller_address ctx))) + unat (losses (get_player w' (caller_address ctx)))
         = unat (total_flips (get_player w' (caller_address ctx))))"
    if ok: "flip ctx pr w = (Inr (), w')"
  proof -
    have st: "players w' (caller_address ctx) = Some (get_player w' (caller_address ctx))"
      using ok unfolding flip_Inr_iff[OF refl refl refl refl] by (auto simp: get_player_def)
    have ev: "e_won (last (events w')) = (pr = ucast (block_timestamp ctx mod 2))"
      using ok unfolding flip_Inr_iff[OF refl refl refl refl] by auto
    from flip_Inr_bounds[OF ok] st ev show ?thesis
      by (auto simp: flip_Inr_get_player[OF ok] unat_succ_u32 unat_Suc_u32)
  qed
  from reach stored step show ?thesis
    by (simp add: get_player_empty)
qed

theorem wins_plus_losses_is_total_flips_witness:
  "players sample_world 7 = Some \<lparr>address = 7, total_flips = 1, wins = 1, losses = 0\<rparr> \<and>
   flip (call_at 7 13) 0 sample_world = (Inr (), snd (flip (call_at 7 13) 0 sample_world)) \<and>
   get_player (snd (flip (call_at 7 13) 0 sample_world)) 7
     = \<lparr>address = 7, total_flips = 2, wins = 1, losses = 1\<rparr>"
  using wins_plus_losses_is_total_flips
    [of sample_history 7 "\<lparr>address = 7, total_flips = 1, wins = 1, losses = 0\<rparr>"
        "call_at 7 13" 0 sample_world "snd (flip (call_at 7 13) 0 sample_world)"]
  by (simp add: eval_defs)

section \<open>Rejected calls and written records\<close>

text \<open>
  Claim C3. A call of \<open>flip\<close> with a prediction other than 0 and 1 ends in the panic
  \<open>Invalid_prediction\<close> in the very world it started in: no Player or Game record of
  any identity is written, no event is emitted, and the storage log shows that nothing
  was read or written before the check. The committed world is unchanged as well.
\<close>

theorem invalid_prediction_rejected:
  assumes "pr \<noteq> 0" and "pr \<noteq> 1"
  shows "flip ctx pr w = (Inl Invalid_prediction, w) \<and>
         players (snd (flip ctx pr w)) = players w \<and>
         games (snd (flip ctx pr w)) = games w \<and>
         events (snd (flip ctx pr w)) = events w \<and>
         storage_log (snd (flip ctx pr w)) = storage_log w \<and>
         execute ctx pr w = w \<and> \<not> succeeds ctx pr w"
  using assms by (simp add: flip_def execute_def succeeds_def)

theorem invalid_prediction_rejected_witness:
  "(2::u8) \<noteq> 0 \<and> (2::u8) \<noteq> 1 \<and>
   flip (call_at 7 12) 2 sample_world = (Inl Invalid_prediction, sample_world) \<and>
   execute (call_at 7 12) 2 sample_world = sample_world"
  using invalid_prediction_rejected[of 2 "call_at 7 12" sample_world]
  by simp

text \<open>
  Claim C4. Every Game record of a world reached from the empty one has
  \<open>won = (prediction = outcome)\<close> with prediction and outcome both 0 or 1. The record
  a successful call writes takes its prediction from the argument, its outcome from the
  block timestamp alone, and its \<open>won\<close> flag from comparing the two.
\<close>

theorem game_record_consistent:
  "(games (run cs empty_world) k = Some g \<longrightarrow>
      won g = (prediction g = outcome g) \<and>
      (outcome g = 0 \<or> outcome g = 1) \<and> (prediction g = 0 \<or> prediction g = 1)) \<and>
   (flip ctx pr w = (Inr (), w') \<longrightarrow>
      (\<exists>g'. games w' (caller_address ctx, total_flips (get_player w (caller_address ctx)) + 1) = Some g' \<and>
            prediction g' = pr \<and> (pr = 0 \<or> pr = 1) \<and>
            outcome g' = ucast (block_timestamp ctx mod 2) \<and>
            (outcome g' = 0 \<or> outcome g' = 1) \<and>
            won g' = (prediction g' = outcome g')))"
proof -
  have inv: "world_inv (run cs empty_world)" by (rule world_inv_reachable)
  have reach: "won g = (prediction g = outcome g) \<and>
      (outcome g = 0 \<or> outcome g = 1) \<and> (prediction g = 0 \<or> prediction g = 1)"
    if "games (run cs empty_world) k = Some g"
    using inv that unfolding world_inv_def by blast
  have step: "\<exists>g'. games w' (caller_address ctx, total_flips (get_player w (caller_address ctx)) + 1) = Some g' \<and>
            prediction g' = pr \<and> (pr = 0 \<or> pr = 1) \<and>
            outcome g' = ucast (block_timestamp ctx mod 2) \<and>
            (outcome g' = 0 \<or> outcome g' = 1) \<and>
            won g' = (prediction g' = outcome g')"
    if ok: "flip ctx pr w = (Inr (), w')"
    using flip_Inr_bounds[OF ok] coin_cases[of "block_timestamp ctx"]
    by (simp add: flip_Inr_games[OF ok])
  from reach step show ?thesis by blast
qed

theorem game_record_consistent_witness:
  "games sample_world (9, 1)
     = Some \<lparr>player = 9, game_id = 1, prediction = 0, outcome = 1, won = False\<rparr> \<and>
   flip (call_at 7 13) 1 sample_world = (Inr (), snd (flip (call_at 7 13) 1 sample_world)) \<and>
   games (snd (flip (call_at 7 13) 1 sample_world)) (7, 2)
     = Some \<lparr>player = 7, game_id = 2, prediction = 1, outcome = 1, won = True\<rparr>"
  using game_record_consistent
    [of sample_history "(9, 1)" "\<lparr>player = 9, game_id = 1, prediction = 0, outcome = 1, won = False\<rparr>"
        "call_at 7 13" 1 sample_world "snd (flip (call_at 7 13) 1 sample_world)"]
  by (simp add: eval_defs)

section \<open>Outcome and event\<close>

text \<open>
  Claim C5. On a successful call the outcome, in the Game record written and in the
  event emitted, is the block timestamp modulo 2. When the timestamp is even the outcome
  is 0, and then a prediction of 0 wins: \<open>won\<close> is set and \<open>wins\<close> of the caller grows
  by one.
\<close>

theorem outcome_is_timestamp_mod_2:
  assumes "flip ctx pr w = (Inr (), w')"
  shows "\<exists>g. games w' (caller_address ctx, total_flips (get_player w (caller_address ctx)) + 1) = Some g \<and>
           unat (outcome g) = unat (block_timestamp ctx) mod 2 \<and>
           e_outcome (last (events w')) = outcome g \<and>
           (even (unat (block_timestamp ctx)) \<longrightarrow>
              outcome g = 0 \<and>
              (pr = 0 \<longrightarrow>
                 won g \<and> e_won (last (events w')) \<and>
                 unat (wins (get_player w' (caller_address ctx)))
                   = unat (wins (get_player w (caller_address ctx))) + 1 \<and>
                 losses (get_player w' (caller_address ctx))
                   = losses (get_player w (caller_address ctx))))"
proof -
  let ?c = "caller_address ctx"
  let ?oc = "ucast (block_timestamp ctx mod 2) :: u8"
  let ?g = "\<lparr>player = ?c, game_id = total_flips (get_player w ?c) + 1, prediction = pr,
             outcome = ?oc, won = (pr = ?oc)\<rparr>"
  have g: "games w' (?c, total_flips (get_player w ?c) + 1) = Some ?g"
    by (simp add: flip_Inr_games[OF assms])
  have ev: "e_outcome (last (events w')) = ?oc" "e_won (last (events w')) = (pr = ?oc)"
    using assms unfolding flip_Inr_iff[OF refl refl refl refl] by auto
  have zero: "?oc = 0" if "even (unat (block_timestamp ctx))"
  proof -
    from that have "unat ?oc = 0" by (simp add: unat_coin)
    then show ?thesis by (simp add: unat_eq_0)
  qed
  have win: "unat (wins (get_player w' ?c)) = unat (wins (get_player w ?c)) + 1 \<and>
      losses (get_player w' ?c) = losses (get_player w ?c)"
    if "?oc = 0" and "pr = 0"
    using that flip_Inr_bounds[OF assms]
    by (simp add: flip_Inr_get_player[OF assms] unat_succ_u32)
  have "unat (outcome ?g) = unat (block_timestamp ctx) mod 2 \<and>
        e_outcome (last (events w')) = outcome ?g \<and>
        (even (unat (block_timestamp ctx)) \<longrightarrow>
           outcome ?g = 0 \<and>
           (pr = 0 \<longrightarrow> won ?g \<and> e_won (last (events w')) \<and>
              unat (wins (get_player w' ?c)) = unat (wins (get_player w ?c)) + 1 \<and>
              losses (get_player w' ?c) = losses (get_player w ?c)))"
    using zero win ev by (simp add: unat_coin)
  with g show ?thesis by blast
qed

theorem outcome_is_timestamp_mod_2_witness:
  "flip (call_at 7 10) 0 empty_world = (Inr (), snd (flip (call_at 7 10) 0 empty_world)) \<and>
   even (unat (10 :: u64)) \<and>
   get_player (snd (flip (call_at 7 10) 0 empty_world)) 7
     = \<lparr>address = 7, total_flips = 1, wins = 1, losses = 0\<rparr> \<and>
   games (snd (flip (call_at 7 10) 0 empty_world)) (7, 1)
     = Some \<lparr>player = 7, game_id = 1, prediction = 0, outcome = 0, won = True\<rparr>"
  using outcome_is_timestamp_mod_2
    [of "call_at 7 10" 0 empty_world "snd (flip (call_at 7 10) 0 empty_world)"]
  by (simp add: eval_defs)

text \<open>
  Claim C6. A successful call appends exactly one \<open>Flipped\<close> event, and its five fields
  are the key and the fields of the Game record that the same call wrote (the last
  storage access of the call). A call that ends in a panic appends none, and commits
  none: the number of committed events grows by one exactly when the call succeeds.
\<close>

theorem one_event_iff_success:
  "(flip ctx pr w = (Inr (), w') \<longrightarrow>
      (\<exists>e g. events w' = events w @ [e] \<and>
             games w' (e_player e, e_game_id e) = Some g \<and>
             last (storage_log w') = Write_Game (e_player e) (e_game_id e) \<and>
             e_player e = caller_address ctx \<and>
             e_player e = player g \<and> e_game_id e = game_id g \<and>
             e_prediction e = prediction g \<and> e_outcome e = outcome g \<and> e_won e = won g)) \<and>
   (flip ctx pr w = (Inl err, w') \<longrightarrow> events w' = events w) \<and>
   events (execute ctx pr w) =
     (if succeeds ctx pr w then events w @ [last (events (execute ctx pr w))] else events w) \<and>
   length (events (execute ctx pr w)) = length (events w) + (if succeeds ctx pr w then 1 else 0)"
proof -
  have ok: "\<exists>e g. events w' = events w @ [e] \<and>
             games w' (e_player e, e_game_id e) = Some g \<and>
             last (storage_log w') = Write_Game (e_player e) (e_game_id e) \<and>
             e_player e = caller_address ctx \<and>
             e_player e = player g \<and> e_game_id e = game_id g \<and>
             e_prediction e = prediction g \<and> e_outcome e = outcome g \<and> e_won e = won g"
    if "flip ctx pr w = (Inr (), w')" for w'
    using that unfolding flip_Inr_iff[OF refl refl refl refl] by auto
  have bad: "events w' = events w" if "flip ctx pr w = (Inl err, w')"
    using that unfolding flip_Inl_iff[OF refl refl refl] by auto
  have ex: "events (execute ctx pr w) =
     (if succeeds ctx pr w then events w @ [last (events (execute ctx pr w))] else events w)"
    using execute_cases[of ctx pr w] ok[of "execute ctx pr w"] by auto
  then have len: "length (events (execute ctx pr w))
      = length (events w) + (if succeeds ctx pr w then 1 else 0)"
    by (metis (full_types) add.right_neutral length_append_singleton Suc_eq_plus1)
  from ok bad ex len show ?thesis by blast
qed

theorem one_event_iff_success_witness:
  "flip (call_at 7 13) 1 sample_world = (Inr (), snd (flip (call_at 7 13) 1 sample_world)) \<and>
   events (snd (flip (call_at 7 13) 1 sample_world)) = events sample_world @
     [\<lparr>e_player = 7, e_game_id = 2, e_prediction = 1, e_outcome = 1, e_won = True\<rparr>] \<and>
   flip (call_at 7 13) 5 sample_world = (Inl Invalid_prediction, snd (flip (call_at 7 13) 5 sample_world)) \<and>
   events (snd (flip (call_at 7 13) 5 sample_world)) = events sample_world"
  using one_event_iff_success
    [of "call_at 7 13" 1 sample_world "snd (flip (call_at 7 13) 1 sample_world)"]
    one_event_iff_success
    [of "call_at 7 13" 5 sample_world "snd (flip (call_at 7 13) 5 sample_world)" Invalid_prediction]
  by (simp add: eval_defs)

section \<open>The limit of the counters\<close>

text \<open>Identity 7 keeps flipping 0 in blocks with an even timestamp, and keeps winning.\<close>

lemma execute_winning_flip:
  assumes "unat (total_flips (get_player w 7)) + 1 < 2 ^ 32"
    and "unat (wins (get_player w 7)) + 1 < 2 ^ 32"
  shows "get_player (execute (call_at 7 10) 0 w) 7 =
    \<lparr>address = 7, total_flips = total_flips (get_player w 7) + 1,
     wins = wins (get_player w 7) + 1, losses = losses (get_player w 7)\<rparr>"
proof -
  let ?w' = "\<lparr>players = (players w)(7 \<mapsto> \<lparr>address = 7, total_flips = total_flips (get_player w 7) + 1,
                 wins = wins (get_player w 7) + 1, losses = losses (get_player w 7)\<rparr>),
          games = (games w)((7, total_flips (get_player w 7) + 1) \<mapsto>
                 \<lparr>player = 7, game_id = total_flips (get_player w 7) + 1, prediction = 0,
                  outcome = 0, won = True\<rparr>),
          events = events w @
                 [\<lparr>e_player = 7, e_game_id = total_flips (get_player w 7) + 1, e_prediction = 0,
                   e_outcome = 0, e_won = True\<rparr>],
          storage_log = storage_log w @
            [Read_Player 7, Write_Player 7, Write_Game 7 (total_flips (get_player w 7) + 1)]\<rparr>"
  have "flip (call_at 7 10) 0 w = (Inr (), ?w')"
    unfolding flip_Inr_iff[OF refl refl refl refl] using assms by simp
  then show ?thesis by (simp add: execute_def get_player_def)
qed

lemma run_winning_flips:
  "unat (total_flips (get_player w 7)) + n < 2 ^ 32 \<Longrightarrow>
   unat (wins (get_player w 7)) + n < 2 ^ 32 \<Longrightarrow>
   total_flips (get_player (run (replicate n (call_at 7 10, 0)) w) 7)
     = total_flips (get_player w 7) + word_of_nat n \<and>
   wins (get_player (run (replicate n (call_at 7 10, 0)) w) 7)
     = wins (get_player w 7) + word_of_nat n"
proof (induction n arbitrary: w)
  case 0
  show ?case by simp
next
  case (Suc n)
  let ?w1 = "execute (call_at 7 10) 0 w"
  have s: "get_player ?w1 7 =
    \<lparr>address = 7, total_flips = total_flips (get_player w 7) + 1,
     wins = wins (get_player w 7) + 1, losses = losses (get_player w 7)\<rparr>"
    using Suc.prems by (intro execute_winning_flip) simp_all
  have "unat (total_flips (get_player ?w1 7)) + n < 2 ^ 32"
    "unat (wins (get_player ?w1 7)) + n < 2 ^ 32"
    using Suc.prems by (simp_all add: s unat_Suc_u32)
  from Suc.IH[OF this] show ?case
    by (simp add: s add.assoc)
qed

text \<open>
  Claim C7 as stated fails: a prediction of 0 in a world that identity 7 reached by
  \<open>2^32 - 1\<close> successful flips ends in the overflow panic of the checked addition
  \<open>total_flips + 1\<close>, not in success.
\<close>

theorem flip_overflows_at_u32_max:
  "fst (flip (call_at 7 10) 0 (run (replicate 4294967295 (call_at 7 10, 0)) empty_world))
     = Inl u32_add_Overflow"
proof -
  let ?w = "run (replicate 4294967295 (call_at 7 10, 0)) empty_world"
  have "total_flips (get_player ?w 7)
       = total_flips (get_player empty_world 7) + word_of_nat 4294967295 \<and>
     wins (get_player ?w 7) = wins (get_player empty_world 7) + word_of_nat 4294967295"
    by (rule run_winning_flips) (simp_all add: get_player_empty)
  then have p: "total_flips (get_player ?w 7) = 4294967295"
    by (simp add: get_player_empty)
  have "flip (call_at 7 10) 0 ?w
      = (Inl u32_add_Overflow, ?w\<lparr>storage_log := storage_log ?w @ [Read_Player 7]\<rparr>)"
    unfolding flip_Inl_iff[OF refl refl refl] by (simp add: p)
  then show ?thesis by simp
qed

text \<open>
  Claim C7, amended. The failed check of the prediction and the overflow of a checked
  \<open>u32\<close> addition are the only panics of \<open>flip\<close>; reading a record and converting
  the coin never fail. In a world reached from the empty one, a call with a prediction
  of 0 or 1 succeeds exactly when \<open>total_flips\<close> of the caller is below \<open>2^32 - 1\<close>;
  in any world it succeeds when the three counters of the caller are below that bound.
\<close>

theorem flip_succeeds_below_u32_max:
  "(succeeds ctx pr (run cs empty_world) \<longleftrightarrow>
      (pr = 0 \<or> pr = 1) \<and>
      unat (total_flips (get_player (run cs empty_world) (caller_address ctx))) < 2 ^ 32 - 1) \<and>
   ((pr = 0 \<or> pr = 1) \<and>
    unat (total_flips (get_player w (caller_address ctx))) < 2 ^ 32 - 1 \<and>
    unat (wins (get_player w (caller_address ctx))) < 2 ^ 32 - 1 \<and>
    unat (losses (get_player w (caller_address ctx))) < 2 ^ 32 - 1 \<longrightarrow>
      fst (flip ctx pr w) = Inr () \<and> succeeds ctx pr w) \<and>
   (fst (flip ctx pr w) = Inl err \<longrightarrow>
      err = Invalid_prediction \<and> pr \<noteq> 0 \<and> pr \<noteq> 1 \<or>
      err = u32_add_Overflow \<and> (pr = 0 \<or> pr = 1) \<and>
        (unat (total_flips (get_player w (caller_address ctx))) = 2 ^ 32 - 1 \<or>
         unat (wins (get_player w (caller_address ctx))) = 2 ^ 32 - 1 \<or>
         unat (losses (get_player w (caller_address ctx))) = 2 ^ 32 - 1))"
proof -
  let ?c = "caller_address ctx"
  let ?oc = "ucast (block_timestamp ctx mod 2) :: u8"
  have ok_iff: "fst (flip ctx pr v) = Inr () \<longleftrightarrow>
      (pr = 0 \<or> pr = 1) \<and> unat (total_flips (get_player v ?c)) + 1 < 2 ^ 32 \<and>
      (if pr = ?oc then unat (wins (get_player v ?c)) + 1 < 2 ^ 32
       else unat (losses (get_player v ?c)) + 1 < 2 ^ 32)" for v
  proof
    assume "fst (flip ctx pr v) = Inr ()"
    then have "flip ctx pr v = (Inr (), snd (flip ctx pr v))"
      by (metis prod.collapse)
    from flip_Inr_bounds[OF this] show "(pr = 0 \<or> pr = 1) \<and>
      unat (total_flips (get_player v ?c)) + 1 < 2 ^ 32 \<and>
      (if pr = ?oc then unat (wins (get_player v ?c)) + 1 < 2 ^ 32
       else unat (losses (get_player v ?c)) + 1 < 2 ^ 32)" .
  next
    assume h: "(pr = 0 \<or> pr = 1) \<and> unat (total_flips (get_player v ?c)) + 1 < 2 ^ 32 \<and>
      (if pr = ?oc then unat (wins (get_player v ?c)) + 1 < 2 ^ 32
       else unat (losses (get_player v ?c)) + 1 < 2 ^ 32)"
    obtain v' where "flip ctx pr v = (Inr (), v')"
      using h flip_Inr_iff[OF refl refl refl refl, of ctx pr v "()"] by blast
    then show "fst (flip ctx pr v) = Inr ()" by simp
  qed
  have succ: "succeeds ctx pr v \<longleftrightarrow> fst (flip ctx pr v) = Inr ()" for v
    by (cases "fst (flip ctx pr v)") (simp_all add: succeeds_def)
  have bnd: "unat (x::u32) < 2 ^ 32" for x
    using unsigned_less[of x] by simp
  have inv: "world_inv (run cs empty_world)" by (rule world_inv_reachable)
  then have sum: "unat (wins (get_player (run cs empty_world) ?c))
      + unat (losses (get_player (run cs empty_world) ?c))
      = unat (total_flips (get_player (run cs empty_world) ?c))"
    unfolding world_inv_def by blast
  have reach: "succeeds ctx pr (run cs empty_world) \<longleftrightarrow>
      (pr = 0 \<or> pr = 1) \<and>
      unat (total_flips (get_player (run cs empty_world) ?c)) < 2 ^ 32 - 1"
    unfolding succ ok_iff using sum by auto
  have any: "fst (flip ctx pr w) = Inr () \<and> succeeds ctx pr w"
    if "(pr = 0 \<or> pr = 1) \<and>
      unat (total_flips (get_player w ?c)) < 2 ^ 32 - 1 \<and>
      unat (wins (get_player w ?c)) < 2 ^ 32 - 1 \<and>
      unat (losses (get_player w ?c)) < 2 ^ 32 - 1"
    unfolding succ ok_iff using that by auto
  have errs: "err = Invalid_prediction \<and> pr \<noteq> 0 \<and> pr \<noteq> 1 \<or>
      err = u32_add_Overflow \<and> (pr = 0 \<or> pr = 1) \<and>
        (unat (total_flips (get_player w ?c)) = 2 ^ 32 - 1 \<or>
         unat (wins (get_player w ?c)) = 2 ^ 32 - 1 \<or>
         unat (losses (get_player w ?c)) = 2 ^ 32 - 1)"
    if "fst (flip ctx pr w) = Inl err"
  proof -
    from that have "flip ctx pr w = (Inl err, snd (flip ctx pr w))"
      by (metis prod.collapse)
    then show ?thesis
      unfolding flip_Inl_iff[OF refl refl refl]
      using bnd[of "total_flips (get_player w ?c)"] bnd[of "wins (get_player w ?c)"]
        bnd[of "losses (get_player w ?c)"]
      by (auto split: if_splits)
  qed
  from reach any errs show ?thesis by blast
qed

theorem flip_succeeds_below_u32_max_witness:
  "unat (total_flips (get_player sample_world 7)) = 1 \<and>
   unat (wins (get_player sample_world 7)) = 1 \<and>
   unat (losses (get_player sample_world 7)) = 0 \<and>
   succeeds (call_at 7 13) 1 sample_world \<and>
   fst (flip (call_at 7 13) 1 sample_world) = Inr () \<and>
   fst (flip (call_at 7 13) 2 sample_world) = Inl Invalid_prediction"
  using flip_succeeds_below_u32_max[of "call_at 7 13" 1 sample_history sample_world]
    flip_succeeds_below_u32_max[of "call_at 7 13" 2 sample_history sample_world Invalid_prediction]
  by (simp add: eval_defs)

section \<open>Frame and dependence on the clock\<close>

lemma run_append: "run (cs @ ds) w = run ds (run cs w)"
  by (induction cs arbitrary: w) auto

lemma games_kept_by_execute:
  assumes "world_inv w" and "games w k = Some g"
  shows "games (execute ctx pr w) k = Some g"
proof (cases "succeeds ctx pr w")
  case False
  with execute_cases[of ctx pr w] assms show ?thesis by auto
next
  case True
  with execute_cases[of ctx pr w] have ok: "flip ctx pr w = (Inr (), execute ctx pr w)" by auto
  from flip_Inr_bounds[OF ok]
  have "unat (total_flips (get_player w (caller_address ctx))) + 1 < 2 ^ 32" by blast
  from next_game_id_fresh[OF assms(1) this] assms(2)
  have "k \<noteq> (caller_address ctx, total_flips (get_player w (caller_address ctx)) + 1)"
    by auto
  with assms(2) show ?thesis by (simp add: flip_Inr_games[OF ok])
qed

lemma games_kept_by_run:
  "world_inv w \<Longrightarrow> games w k = Some g \<Longrightarrow> games (run cs w) k = Some g"
proof (induction cs arbitrary: w)
  case Nil
  then show ?case by simp
next
  case (Cons c cs)
  obtain ctx pr where c: "c = (ctx, pr)" by (cases c)
  from Cons.prems have "world_inv (execute ctx pr w)" "games (execute ctx pr w) k = Some g"
    by (simp_all add: world_inv_execute games_kept_by_execute)
  from Cons.IH[OF this] show ?case by (simp add: c)
qed

text \<open>
  Claim C8. A successful call by identity \<open>p\<close> in a world reached from the empty one
  performs one read and two writes: the Player record at key \<open>p\<close> and a Game record at
  the key \<open>(p, total_flips + 1)\<close>, which held no record before. The Player record of
  every other identity and every Game record written earlier, of any identity, are as
  they were; and whatever calls follow, a Game record once written stays as written.
\<close>

theorem flip_writes_only_its_own_records:
  "(flip ctx pr (run cs empty_world) = (Inr (), w') \<and> caller_address ctx = p \<longrightarrow>
      storage_log w' = storage_log (run cs empty_world) @
        [Read_Player p, Write_Player p,
         Write_Game p (total_flips (get_player (run cs empty_world) p) + 1)] \<and>
      (q \<noteq> p \<longrightarrow> players w' q = players (run cs empty_world) q) \<and>
      (p, total_flips (get_player (run cs empty_world) p) + 1) \<notin> dom (games (run cs empty_world)) \<and>
      dom (games w') = insert (p, total_flips (get_player (run cs empty_world) p) + 1)
                         (dom (games (run cs empty_world))) \<and>
      (k \<noteq> (p, total_flips (get_player (run cs empty_world) p) + 1) \<longrightarrow>
         games w' k = games (run cs empty_world) k) \<and>
      (games (run cs empty_world) k = Some g \<longrightarrow> games w' k = Some g)) \<and>
   (games (run cs empty_world) k = Some g \<longrightarrow> games (run (cs @ ds) empty_world) k = Some g)"
proof -
  let ?w = "run cs empty_world"
  have inv: "world_inv ?w" by (rule world_inv_reachable)
  have later: "games (run (cs @ ds) empty_world) k = Some g" if "games ?w k = Some g"
    using games_kept_by_run[OF inv that] by (simp add: run_append)
  have step: "storage_log w' = storage_log ?w @
        [Read_Player p, Write_Player p, Write_Game p (total_flips (get_player ?w p) + 1)] \<and>
      (q \<noteq> p \<longrightarrow> players w' q = players ?w q) \<and>
      (p, total_flips (get_player ?w p) + 1) \<notin> dom (games ?w) \<and>
      dom (games w') = insert (p, total_flips (get_player ?w p) + 1) (dom (games ?w)) \<and>
      (k \<noteq> (p, total_flips (get_player ?w p) + 1) \<longrightarrow> games w' k = games ?w k) \<and>
      (games ?w k = Some g \<longrightarrow> games w' k = Some g)"
    if ok: "flip ctx pr ?w = (Inr (), w')" and p: "caller_address ctx = p"
  proof -
    have b: "unat (total_flips (get_player ?w p)) + 1 < 2 ^ 32"
      using flip_Inr_bounds[OF ok] unfolding p by blast
    have fresh: "(p, total_flips (get_player ?w p) + 1) \<notin> dom (games ?w)"
      by (rule next_game_id_fresh[OF inv b])
    have lg: "storage_log w' = storage_log ?w @
        [Read_Player p, Write_Player p, Write_Game p (total_flips (get_player ?w p) + 1)]"
      and pl: "q \<noteq> p \<longrightarrow> players w' q = players ?w q"
      using ok unfolding flip_Inr_iff[OF refl refl refl refl] p by auto
    have gm: "games w' = (games ?w)((p, total_flips (get_player ?w p) + 1) \<mapsto>
       \<lparr>player = p, game_id = total_flips (get_player ?w p) + 1, prediction = pr,
        outcome = ucast (block_timestamp ctx mod 2),
        won = (pr = ucast (block_timestamp ctx mod 2))\<rparr>)"
      using flip_Inr_games[OF ok] unfolding p .
    from fresh lg pl show ?thesis
      by (auto simp: gm)
  qed
  from step later show ?thesis by blast
qed

theorem flip_writes_only_its_own_records_witness:
  "flip (call_at 7 13) 1 sample_world = (Inr (), snd (flip (call_at 7 13) 1 sample_world)) \<and>
   (9::nat) \<noteq> 7 \<and>
   players (snd (flip (call_at 7 13) 1 sample_world)) 9
     = Some \<lparr>address = 9, total_flips = 1, wins = 0, losses = 1\<rparr> \<and>
   games sample_world (7, 1)
     = Some \<lparr>player = 7, game_id = 1, prediction = 0, outcome = 0, won = True\<rparr> \<and>
   games (snd (flip (call_at 7 13) 1 sample_world)) (7, 1)
     = Some \<lparr>player = 7, game_id = 1, prediction = 0, outcome = 0, won = True\<rparr> \<and>
   games (run (sample_history @ [(call_at 7 13, 1)]) empty_world) (7, 1)
     = Some \<lparr>player = 7, game_id = 1, prediction = 0, outcome = 0, won = True\<rparr>"
  using flip_writes_only_its_own_records
    [of "call_at 7 13" 1 sample_history "snd (flip (call_at 7 13) 1 sample_world)" 7 9 "(7, 1)"
        "\<lparr>player = 7, game_id = 1, prediction = 0, outcome = 0, won = True\<rparr>"
        "[(call_at 7 13, 1)]"]
  by (simp add: eval_defs)

text \<open>
  Claim C9. The outcome is a function of the block timestamp alone: two successful
  calls in blocks with the same timestamp record the same outcome, in the Game record
  and in the event, whoever the callers are, whatever they predict and whatever the two
  worlds hold.
\<close>

theorem outcome_depends_on_timestamp_only:
  assumes "flip c1 pr1 w1 = (Inr (), w1')" and "flip c2 pr2 w2 = (Inr (), w2')"
    and "block_timestamp c1 = block_timestamp c2"
  shows "e_outcome (last (events w1')) = e_outcome (last (events w2')) \<and>
    map_option outcome (games w1' (caller_address c1, total_flips (get_player w1 (caller_address c1)) + 1))
      = map_option outcome (games w2' (caller_address c2, total_flips (get_player w2 (caller_address c2)) + 1)) \<and>
    map_option outcome (games w1' (caller_address c1, total_flips (get_player w1 (caller_address c1)) + 1))
      = Some (e_outcome (last (events w1')))"
proof -
  have "e_outcome (last (events w1')) = ucast (block_timestamp c1 mod 2)"
    using assms(1) unfolding flip_Inr_iff[OF refl refl refl refl] by auto
  moreover have "e_outcome (last (events w2')) = ucast (block_timestamp c2 mod 2)"
    using assms(2) unfolding flip_Inr_iff[OF refl refl refl refl] by auto
  ultimately show ?thesis
    by (simp add: flip_Inr_games[OF assms(1)] flip_Inr_games[OF assms(2)] assms(3))
qed

theorem outcome_depends_on_timestamp_only_witness:
  "flip (call_at 7 13) 0 sample_world = (Inr (), snd (flip (call_at 7 13) 0 sample_world)) \<and>
   flip (call_at 4 13) 1 empty_world = (Inr (), snd (flip (call_at 4 13) 1 empty_world)) \<and>
   block_timestamp (call_at 7 13) = block_timestamp (call_at 4 13) \<and>
   e_outcome (last (events (snd (flip (call_at 7 13) 0 sample_world)))) = 1 \<and>
   e_outcome (last (events (snd (flip (call_at 4 13) 1 empty_world)))) = 1"
  using outcome_depends_on_timestamp_only
    [of "call_at 7 13" 0 sample_world "snd (flip (call_at 7 13) 0 sample_world)"
        "call_at 4 13" 1 empty_world "snd (flip (call_at 4 13) 1 empty_world)"]
  by (simp add: eval_defs)

end
